theory Spec2Isabelle
  imports Complex_Main "HOL-Library.Word" "HOL-Library.Log_Nat"
begin

section \<open>Text layout: \<open>wrapText\<close> and the font ladder of \<open>render\<close> (VideoPreview)\<close>

text \<open>
  A JavaScript string is a sequence of UTF-16 code units; \<open>length\<close> counts code units and
  \<open>split(' ')\<close> cuts at the code unit 0x20.
\<close>

type_synonym uint16 = "16 word"
type_synonym jsstring = "uint16 list"

abbreviation SP :: uint16 where
  "SP \<equiv> 32"

text \<open>
  \<open>text.split(' ')\<close>: the pieces between the spaces, empty pieces kept. The result always has
  at least one element (\<open>"".split(' ')\<close> is \<open>[""]\<close>), so the \<open>[]\<close> branch of the inner case is
  never taken (lemma \<open>split_js_nonempty\<close>).
\<close>

fun split_js :: "jsstring \<Rightarrow> jsstring list" where
  "split_js [] = [[]]"
| "split_js (c # cs) =
     (if c = SP then [] # split_js cs
      else (case split_js cs of [] \<Rightarrow> [[c]] | w # ws \<Rightarrow> (c # w) # ws))"

text \<open>\<open>lines.join(' ')\<close>.\<close>

fun join_js :: "jsstring list \<Rightarrow> jsstring" where
  "join_js [] = []"
| "join_js [x] = x"
| "join_js (x # y # ys) = x @ SP # join_js (y # ys)"

text \<open>
  The \<open>for\<close> loop of \<open>wrapText\<close> over \<open>words[1..]\<close>, with the two variables it updates:
  \<open>lines\<close> and \<open>currentLine\<close>. \<open>measureText s\<close> stands for \<open>ctx.measureText(s).width\<close>.
  After the loop the current line is pushed.
\<close>

fun wrapLoop :: "(jsstring \<Rightarrow> real) \<Rightarrow> real \<Rightarrow> jsstring list \<Rightarrow> jsstring list \<Rightarrow> jsstring
    \<Rightarrow> jsstring list" where
  "wrapLoop measureText maxWidth [] lines currentLine = lines @ [currentLine]"
| "wrapLoop measureText maxWidth (word # rest) lines currentLine =
     (if measureText (currentLine @ SP # word) < maxWidth
      then wrapLoop measureText maxWidth rest lines (currentLine @ SP # word)
      else wrapLoop measureText maxWidth rest (lines @ [currentLine]) word)"

text \<open>
  \<open>wrapText(ctx, text, maxWidth)\<close>. \<open>words[0]\<close> exists for every text; the \<open>[]\<close> branch stands
  for an empty \<open>words\<close> array, which \<open>split\<close> never returns.
\<close>

definition wrapText :: "(jsstring \<Rightarrow> real) \<Rightarrow> jsstring \<Rightarrow> real \<Rightarrow> jsstring list" where
  "wrapText measureText text maxWidth =
     (case split_js text of
        [] \<Rightarrow> [[]]
      | w # ws \<Rightarrow> wrapLoop measureText maxWidth ws [] w)"

text \<open>
  The font ladder of \<open>render\<close>: \<open>baseArabicSize\<close> and \<open>baseEnglishSize\<close> start at 64 and 48 and
  are lowered according to \<open>totalCharCount\<close>.
\<close>

record Hadith =
  arabic :: jsstring
  english :: jsstring
  source :: jsstring
  grade :: jsstring

definition totalCharCount :: "Hadith \<Rightarrow> nat" where
  "totalCharCount hadith = length (arabic hadith) + length (english hadith)"

definition baseSizes :: "nat \<Rightarrow> nat \<times> nat" where
  "baseSizes count =
     (if count > 800 then (42, 32)
      else if count > 500 then (52, 40)
      else (64, 48))"

definition baseArabicSize :: "Hadith \<Rightarrow> nat" where
  "baseArabicSize hadith = fst (baseSizes (totalCharCount hadith))"

definition baseEnglishSize :: "Hadith \<Rightarrow> nat" where
  "baseEnglishSize hadith = snd (baseSizes (totalCharCount hadith))"

section \<open>Cover-fit of the background video in \<open>render\<close> (VideoPreview)\<close>

text \<open>
  The rectangle passed to \<open>ctx.drawImage(video, drawX, drawY, drawW, drawH)\<close>, computed on
  each tick on which \<open>videoUrl\<close> is set and \<open>video.readyState >= 2\<close>. \<open>W\<close> and \<open>H\<close> are
  the canvas width and height, 1080 and 1920 in the component's markup. The arithmetic is
  modelled over the reals. Where a divisor is 0 JavaScript computes with Infinity or NaN; the
  model gives \<open>None\<close> there.
\<close>

record DrawRect =
  drawX :: real
  drawY :: real
  drawW :: real
  drawH :: real

definition coverFit :: "nat \<Rightarrow> nat \<Rightarrow> nat \<Rightarrow> nat \<Rightarrow> DrawRect option" where
  "coverFit W H videoWidth videoHeight =
     (if videoWidth = 0 \<or> videoHeight = 0 \<or> H = 0 then None
      else
        let videoAspect = real videoWidth / real videoHeight;
            canvasAspect = real W / real H
        in if videoAspect > canvasAspect
           then Some \<lparr>drawX = (real W - real H * videoAspect) / 2, drawY = 0,
                       drawW = real H * videoAspect, drawH = real H\<rparr>
           else Some \<lparr>drawX = 0, drawY = (real H - real W / videoAspect) / 2,
                       drawW = real W, drawH = real W / videoAspect\<rparr>)"

definition canvasWidth :: nat where
  "canvasWidth = 1080"

definition canvasHeight :: nat where
  "canvasHeight = 1920"

section \<open>Audio decode: \<open>decodeRawPcm\<close> (App)\<close>

text \<open>
  \<open>decodeRawPcm\<close> has no check of its own: it fails where the two platform calls it makes throw.
  \<^item> \<open>new Int16Array(data.buffer)\<close> throws RangeError when the byte length of the buffer is not
    a multiple of 2. Element \<open>k\<close> is made of bytes \<open>2k\<close> (low) and \<open>2k+1\<close> (high): typed arrays
    use the byte order of the machine, little-endian wherever the application runs.
  \<^item> \<open>ctx.createBuffer(numberOfChannels, length, sampleRate)\<close> throws NotSupportedError when
    an argument is negative, zero or outside its nominal range. The ranges belong to the
    implementation of the audio context: a largest channel count (at least 32) and an interval
    of sample rates (at least 8000 to 96000). They are fields of the model's \<open>AudioContext\<close>.
    A fractional \<open>length\<close> is truncated, and Infinity and NaN become 0, by the conversion of
    the argument to an unsigned integer.
\<close>

datatype js_error = RangeError | NotSupportedError

type_synonym uint8 = "8 word"
type_synonym int16 = "16 word"

definition le16 :: "uint8 \<Rightarrow> uint8 \<Rightarrow> int16" where
  "le16 lo hi = ucast lo + 256 * ucast hi"

fun int16_elems :: "uint8 list \<Rightarrow> int16 list" where
  "int16_elems (lo # hi # rest) = le16 lo hi # int16_elems rest"
| "int16_elems [b] = []"
| "int16_elems [] = []"

definition Int16Array :: "uint8 list \<Rightarrow> js_error + int16 list" where
  "Int16Array buffer =
     (if odd (length buffer) then Inl RangeError else Inr (int16_elems buffer))"

text \<open>
  An element of a \<open>Float32Array\<close>. The values the decoder stores are an int16 divided by
  \<open>2^15\<close>, which single precision represents exactly, so \<open>Num\<close> carries the exact real.
\<close>

datatype float32 = NaN | Num real

record AudioContext =
  maxChannels :: nat
  minSampleRate :: int
  maxSampleRate :: int

record AudioBuffer =
  numberOfChannels :: nat
  length_frames :: nat
  sampleRate :: int
  getChannelData :: "float32 list list"

text \<open>
  \<open>ctx.createBuffer\<close>. The \<open>length\<close> argument is the JavaScript number \<open>frameCount\<close>, which need
  not be whole. The new buffer is silent.
\<close>

definition createBuffer :: "AudioContext \<Rightarrow> int \<Rightarrow> real \<Rightarrow> int \<Rightarrow> js_error + AudioBuffer" where
  "createBuffer ctx channels len rate =
     (if channels \<le> 0 \<or> int (maxChannels ctx) < channels then Inl NotSupportedError
      else if \<lfloor>len\<rfloor> \<le> 0 then Inl NotSupportedError
      else if rate \<le> 0 \<or> rate < minSampleRate ctx \<or> maxSampleRate ctx < rate
        then Inl NotSupportedError
      else Inr \<lparr>numberOfChannels = nat channels, length_frames = nat \<lfloor>len\<rfloor>,
                sampleRate = rate,
                getChannelData = replicate (nat channels) (replicate (nat \<lfloor>len\<rfloor>) (Num 0))\<rparr>)"

text \<open>
  \<open>dataInt16[k] / 32768.0\<close>: a read past the end of a typed array is \<open>undefined\<close>, and
  \<open>undefined / 32768.0\<close> is NaN.
\<close>

definition sampleAt :: "int16 list \<Rightarrow> nat \<Rightarrow> float32" where
  "sampleAt dataInt16 k =
     (if k < length dataInt16 then Num (real_of_int (sint (dataInt16 ! k)) / 32768) else NaN)"

text \<open>\<open>channelData[i] = v\<close>: a store past the end of a typed array is ignored.\<close>

definition store :: "float32 list \<Rightarrow> nat \<Rightarrow> float32 \<Rightarrow> float32 list" where
  "store channelData i v = (if i < length channelData then channelData[i := v] else channelData)"

text \<open>
  The inner loop \<open>for (let i = 0; i < frameCount; i++)\<close>. The bound is \<open>frameCount\<close> as computed,
  not truncated: when it is fractional the loop runs once more than the buffer has frames.
\<close>

function innerLoop :: "int16 list \<Rightarrow> nat \<Rightarrow> nat \<Rightarrow> real \<Rightarrow> nat \<Rightarrow> float32 list
    \<Rightarrow> float32 list" where
  "innerLoop dataInt16 numChannels channel frameCount i channelData =
     (if real i < frameCount
      then innerLoop dataInt16 numChannels channel frameCount (Suc i)
             (store channelData i (sampleAt dataInt16 (i * numChannels + channel)))
      else channelData)"
  by pat_completeness auto
termination
  by (relation "measure (\<lambda>(d, n, c, fc, i, cd). nat \<lceil>fc\<rceil> - i)") (auto, linarith)

text \<open>
  The outer loop \<open>for (let channel = 0; channel < numChannels; channel++)\<close>;
  \<open>buffer.getChannelData(channel)\<close> is the channel's own array, updated in place.
\<close>

function outerLoop :: "int16 list \<Rightarrow> nat \<Rightarrow> real \<Rightarrow> nat \<Rightarrow> AudioBuffer \<Rightarrow> AudioBuffer" where
  "outerLoop dataInt16 numChannels frameCount channel buffer =
     (if channel < numChannels
      then outerLoop dataInt16 numChannels frameCount (Suc channel)
             (buffer\<lparr>getChannelData := (getChannelData buffer)
                [channel := innerLoop dataInt16 numChannels channel frameCount 0
                              (getChannelData buffer ! channel)]\<rparr>)
      else buffer)"
  by pat_completeness auto
termination
  by (relation "measure (\<lambda>(d, n, fc, c, b). n - c)") auto

text \<open>
  \<open>decodeRawPcm(data, ctx, sampleRate, numChannels)\<close>. \<open>data\<close> stands for the bytes of
  \<open>data.buffer\<close>; the array the application passes covers its whole buffer. \<open>frameCount\<close> is the quotient of two
  numbers, not an integer division. For \<open>numChannels = 0\<close> JavaScript gives Infinity or NaN where
  the real quotient of the model is 0; \<open>createBuffer\<close> rejects the channel count before it looks
  at the length, and converts all three to length 0.
\<close>

definition decodeRawPcm :: "uint8 list \<Rightarrow> AudioContext \<Rightarrow> int \<Rightarrow> int \<Rightarrow> js_error + AudioBuffer" where
  "decodeRawPcm data ctx rate numChannels =
     (case Int16Array data of
        Inl e \<Rightarrow> Inl e
      | Inr dataInt16 \<Rightarrow>
          let frameCount = real (length dataInt16) / real_of_int numChannels
          in (case createBuffer ctx numChannels frameCount rate of
                Inl e \<Rightarrow> Inl e
              | Inr buffer \<Rightarrow> Inr (outerLoop dataInt16 (nat numChannels) frameCount 0 buffer)))"

text \<open>
  An audio context with the smallest ranges an implementation may have, and the call the
  application makes, \<open>decodeRawPcm(bytes, audioContextRef.current, 24000, 1)\<close>.
\<close>

definition referenceContext :: AudioContext where
  "referenceContext = \<lparr>maxChannels = 32, minSampleRate = 8000, maxSampleRate = 96000\<rparr>"

section \<open>Recording: \<open>generateFullVideo\<close> and the Produce button (App)\<close>

datatype Status = idle | fetching_hadith | generating_tts | generating_video
  | complete_status | error_status

record GenerationState =
  status :: Status
  progress :: int
  message :: string

text \<open>
  The state the component keeps: \<open>hadith\<close>, \<open>finalVideoUrl\<close>, \<open>genState\<close>, and whether
  \<open>previewRef.current\<close> is set.
\<close>

record AppState =
  hadith :: "Hadith option"
  finalVideoUrl :: "string option"
  genState :: GenerationState
  previewRef :: bool

text \<open>
  The synchronous start of \<open>generateFullVideo\<close>, up to its first \<open>await\<close>: the guard on
  \<open>hadith\<close> and \<open>previewRef.current\<close>, then the two state updates. The function does not look at
  \<open>genState.status\<close>.
\<close>

definition generateFullVideo_start :: "'a AppState_scheme \<Rightarrow> 'a AppState_scheme" where
  "generateFullVideo_start s =
     (if hadith s = None \<or> \<not> previewRef s then s
      else s\<lparr>genState := \<lparr>status = generating_tts, progress = 10,
                             message = ''Narrating with AI...''\<rparr>,
              finalVideoUrl := None\<rparr>)"

text \<open>
  The Produce button: \<open>disabled={!hadith || genState.status !== 'idle'}\<close> and
  \<open>onClick={generateFullVideo}\<close>. A click on a disabled button calls no handler.
\<close>

definition produceDisabled :: "'a AppState_scheme \<Rightarrow> bool" where
  "produceDisabled s = (hadith s = None \<or> status (genState s) \<noteq> idle)"

definition clickProduce :: "'a AppState_scheme \<Rightarrow> 'a AppState_scheme" where
  "clickProduce s = (if produceDisabled s then s else generateFullVideo_start s)"

text \<open>
  \<open>fetchHadith\<close>: its synchronous start sets the status to fetching and clears the final video;
  when both of its requests have resolved it stores the new hadith and sets the status to idle,
  whatever the status was. \<open>name\<close> is the name of the active category. (The background video
  it also stores is not part of the model.)
\<close>

definition fetchHadith_start :: "string \<Rightarrow> 'a AppState_scheme \<Rightarrow> 'a AppState_scheme" where
  "fetchHadith_start name s =
     s\<lparr>genState := \<lparr>status = fetching_hadith, progress = 10,
                     message = ''Discovering '' @ name @ ''...''\<rparr>,
       finalVideoUrl := None\<rparr>"

definition fetchHadith_resolved :: "Hadith \<Rightarrow> 'a AppState_scheme \<Rightarrow> 'a AppState_scheme" where
  "fetchHadith_resolved data s =
     s\<lparr>hadith := Some data, genState := \<lparr>status = idle, progress = 0, message = []\<rparr>\<rparr>"

text \<open>
  The Shuffle button: \<open>disabled={genState.status === 'fetching_hadith'}\<close> and
  \<open>onClick={() => fetchHadith()}\<close>. (The category buttons call \<open>fetchHadith\<close> too and are never
  disabled.)
\<close>

definition shuffleDisabled :: "'a AppState_scheme \<Rightarrow> bool" where
  "shuffleDisabled s = (status (genState s) = fetching_hadith)"

definition clickShuffle :: "string \<Rightarrow> 'a AppState_scheme \<Rightarrow> 'a AppState_scheme" where
  "clickShuffle name s = (if shuffleDisabled s then s else fetchHadith_start name s)"

text \<open>
  The encoding phase. \<open>elapsed\<close> and the interval belong to the closure of one call of
  \<open>generateFullVideo\<close>; \<open>recorderState\<close> is \<open>recorder.state\<close>, and \<open>stopEvent\<close> says that
  \<open>recorder.stop()\<close> has been called, after which the recorder delivers its \<open>stop\<close> event to
  \<open>recorder.onstop\<close>.
\<close>

datatype RecordingState = inactive | recording | paused

record Encoding = AppState +
  elapsed :: int
  intervalActive :: bool
  recorderState :: RecordingState
  stopEvent :: bool

text \<open>
  Entering the phase: \<open>setGenState({status: 'generating_video', progress: 40, ...})\<close>,
  \<open>recorder.start()\<close>, \<open>let elapsed = 0\<close>, \<open>setInterval(..., 100)\<close>.
\<close>

definition startEncoding :: "AppState \<Rightarrow> Encoding" where
  "startEncoding s =
     \<lparr>hadith = hadith s, finalVideoUrl = finalVideoUrl s,
      genState = \<lparr>status = generating_video, progress = 40,
                   message = ''Crafting Final Short...''\<rparr>,
      previewRef = previewRef s,
      elapsed = 0, intervalActive = True, recorderState = recording, stopEvent = False\<rparr>"

text \<open>
  JavaScript numbers are IEEE 754 doubles: every division, multiplication and addition gives
  the real result rounded to the nearest double, ties to the even significand.
  \<open>roundDouble\<close> is that rounding for results in the normal range (magnitude from \<open>2^-1022\<close>
  to below \<open>2^1024\<close>), where all the values of the progress computation lie: \<open>binade x\<close> is
  the exponent \<open>e\<close> with \<open>2^e \<le> |x| < 2^(e+1)\<close>, and the doubles of that binade are the
  multiples of \<open>2^(e-52)\<close>.
\<close>

definition binade :: "real \<Rightarrow> int" where
  "binade x =
     (if 1 \<le> \<bar>x\<bar> then bitlen \<lfloor>\<bar>x\<bar>\<rfloor> - 1 else - bitlen (\<lceil>1 / \<bar>x\<bar>\<rceil> - 1))"

definition roundTiesToEven :: "real \<Rightarrow> int" where
  "roundTiesToEven y =
     (let f = \<lfloor>y\<rfloor>
      in if y - of_int f < 1 / 2 then f
         else if 1 / 2 < y - of_int f then f + 1
         else if even f then f else f + 1)"

definition roundDouble :: "real \<Rightarrow> real" where
  "roundDouble x =
     (if x = 0 then 0
      else of_int (roundTiesToEven (x / 2 powi (binade x - 52))) * 2 powi (binade x - 52))"

text \<open>
  \<open>audioBuffer.duration\<close> is the number of frames divided by the sample rate, as a double, and
  \<open>durationMs = audioBuffer.duration * 1000\<close>. Both are positive for every buffer that
  \<open>createBuffer\<close> returns.
\<close>

definition duration :: "AudioBuffer \<Rightarrow> real" where
  "duration buffer =
     roundDouble (real (length_frames buffer) / real_of_int (sampleRate buffer))"

definition durationMs_of :: "AudioBuffer \<Rightarrow> real" where
  "durationMs_of buffer = roundDouble (duration buffer * 1000)"

text \<open>
  The value \<open>p\<close> of the interval callback, \<open>Math.min(40 + (elapsed / durationMs) * 60, 99)\<close>:
  the quotient, the product and the sum are each rounded to a double; \<open>Math.min\<close> is exact.
  The callback evaluates it with \<open>elapsed > 0\<close> only, where a \<open>durationMs\<close> of 0 makes the
  quotient Infinity and \<open>p\<close> 99.
\<close>

definition progressValue :: "real \<Rightarrow> real \<Rightarrow> real" where
  "progressValue elapsedMs durationMs =
     (if durationMs = 0 then 99
      else min (roundDouble (40 + roundDouble (roundDouble (elapsedMs / durationMs) * 60))) 99)"

text \<open>
  One run of the callback of \<open>progressInterval\<close>: \<open>elapsed += 100\<close>, the progress stored is
  \<open>Math.floor(p)\<close>, and once \<open>elapsed >= durationMs\<close> the interval is cleared and the recorder
  stopped unless it is inactive already.
\<close>

definition progressInterval :: "real \<Rightarrow> Encoding \<Rightarrow> Encoding" where
  "progressInterval durationMs s =
     (let elapsed' = elapsed s + 100;
          p = progressValue (real_of_int elapsed') durationMs;
          s' = s\<lparr>elapsed := elapsed', genState := (genState s)\<lparr>progress := \<lfloor>p\<rfloor>\<rparr>\<rparr>
      in if real_of_int elapsed' \<ge> durationMs
         then (if recorderState s' \<noteq> inactive
               then s'\<lparr>intervalActive := False, recorderState := inactive, stopEvent := True\<rparr>
               else s'\<lparr>intervalActive := False\<rparr>)
         else s')"

text \<open>\<open>recorder.onstop\<close>: the final blob's URL is stored and the state set to complete.\<close>

definition recorder_onstop :: "string \<Rightarrow> Encoding \<Rightarrow> Encoding" where
  "recorder_onstop url s =
     s\<lparr>finalVideoUrl := Some url,
       genState := \<lparr>status = complete_status, progress = 100,
                     message = ''Short Production Complete!''\<rparr>,
       stopEvent := False\<rparr>"

text \<open>States for concrete evaluation: a recording being captured, and the idle state before it.\<close>

definition exampleHadith :: Hadith where
  "exampleHadith = \<lparr>arabic = [], english = [104, 105], source = [], grade = []\<rparr>"

definition capturingState :: AppState where
  "capturingState =
     \<lparr>hadith = Some exampleHadith, finalVideoUrl = None,
      genState = \<lparr>status = generating_video, progress = 40,
                   message = ''Crafting Final Short...''\<rparr>,
      previewRef = True\<rparr>"

definition readyState :: AppState where
  "readyState =
     \<lparr>hadith = Some exampleHadith, finalVideoUrl = None,
      genState = \<lparr>status = idle, progress = 0, message = []\<rparr>,
      previewRef = True\<rparr>"

text \<open>
  A sequence of events the page can deliver: Produce is clicked in the idle state and, the
  narration decoded, encoding starts; after one poll of a 2000 ms recording Shuffle is clicked,
  and its fetch resolves.
\<close>

definition refetchedWhileCapturing :: Encoding where
  "refetchedWhileCapturing =
     fetchHadith_resolved exampleHadith
       (clickShuffle ''Random''
         (progressInterval 2000 (startEncoding (clickProduce readyState))))"

declare innerLoop.simps [simp del] outerLoop.simps [simp del]

section \<open>Properties of the text layout\<close>

lemma split_js_nonempty: "split_js t \<noteq> []"
  by (induction t) (auto split: list.splits)

lemma join_js_Cons_Cons: "join_js ((c # w) # ws) = c # join_js (w # ws)"
  by (cases ws) simp_all

lemma join_js_Nil_Cons: "ws \<noteq> [] \<Longrightarrow> join_js ([] # ws) = SP # join_js ws"
  by (cases ws) simp_all

lemma join_split_js: "join_js (split_js t) = t"
proof (induction t)
  case Nil
  show ?case by simp
next
  case (Cons c cs)
  show ?case
  proof (cases "c = SP")
    case True
    then show ?thesis
      using Cons.IH by (simp add: join_js_Nil_Cons split_js_nonempty)
  next
    case False
    obtain w ws where s: "split_js cs = w # ws"
      using split_js_nonempty [of cs] by (cases "split_js cs") auto
    from False s Cons.IH show ?thesis
      by (simp add: join_js_Cons_Cons)
  qed
qed

lemma join_js_append:
  "xs \<noteq> [] \<Longrightarrow> ys \<noteq> [] \<Longrightarrow> join_js (xs @ ys) = join_js xs @ SP # join_js ys"
proof (induction xs rule: join_js.induct)
  case 1
  then show ?case by simp
next
  case (2 x)
  then show ?case by (cases ys) simp_all
next
  case (3 x y zs)
  then show ?case by simp
qed

lemma join_js_merge:
  "join_js (xs @ (a @ SP # b) # ys) = join_js (xs @ a # b # ys)"
proof -
  have one: "join_js ((a @ SP # b) # ys) = join_js (a # b # ys)"
    by (cases ys) simp_all
  show ?thesis
  proof (cases "xs = []")
    case True
    with one show ?thesis by simp
  next
    case False
    then show ?thesis
      using join_js_append [of xs "(a @ SP # b) # ys"] join_js_append [of xs "a # b # ys"] one
      by simp
  qed
qed

lemma join_wrapLoop:
  "join_js (wrapLoop m W ws lines cur) = join_js (lines @ cur # ws)"
proof (induction ws arbitrary: lines cur)
  case Nil
  show ?case by simp
next
  case (Cons w ws)
  show ?case
  proof (cases "m (cur @ SP # w) < W")
    case True
    then show ?thesis
      using Cons.IH [of lines "cur @ SP # w"] by (simp add: join_js_merge)
  next
    case False
    then show ?thesis
      using Cons.IH [of "lines @ [cur]" w] by simp
  qed
qed

lemma wrapLoop_nonempty: "wrapLoop m W ws lines cur \<noteq> []"
  by (induction ws arbitrary: lines cur) auto

lemma wrapLoop_lines:
  assumes "set ws \<subseteq> S" and "\<forall>l \<in> set lines. m l < W \<or> l \<in> S" and "m cur < W \<or> cur \<in> S"
  shows "\<forall>l \<in> set (wrapLoop m W ws lines cur). m l < W \<or> l \<in> S"
  using assms
proof (induction ws arbitrary: lines cur)
  case Nil
  then show ?case by auto
next
  case (Cons w ws)
  show ?case
  proof (cases "m (cur @ SP # w) < W")
    case True
    have "\<forall>l \<in> set (wrapLoop m W ws lines (cur @ SP # w)). m l < W \<or> l \<in> S"
      using Cons.prems True by (intro Cons.IH) auto
    with True show ?thesis by simp
  next
    case False
    have "\<forall>l \<in> set (wrapLoop m W ws (lines @ [cur]) w). m l < W \<or> l \<in> S"
      using Cons.prems by (intro Cons.IH) auto
    with False show ?thesis by simp
  qed
qed

lemma split_js_append_SP: "split_js (a @ SP # b) = split_js a @ split_js b"
proof (induction a)
  case Nil
  show ?case by simp
next
  case (Cons c cs)
  obtain w ws where s: "split_js cs = w # ws"
    using split_js_nonempty [of cs] by (cases "split_js cs") auto
  with Cons show ?case by auto
qed

lemma split_js_no_SP: "w \<in> set (split_js t) \<Longrightarrow> SP \<notin> set w"
proof (induction t arbitrary: w)
  case Nil
  then show ?case by simp
next
  case (Cons c cs)
  obtain v vs where s: "split_js cs = v # vs"
    using split_js_nonempty [of cs] by (cases "split_js cs") auto
  have v: "SP \<notin> set v" and vs: "\<forall>u \<in> set vs. SP \<notin> set u"
    using Cons.IH s by auto
  from Cons.prems s v vs show ?case
    by (auto split: if_splits)
qed

lemma split_js_word: "SP \<notin> set w \<Longrightarrow> split_js w = [w]"
proof (induction w)
  case Nil
  show ?case by simp
next
  case (Cons c cs)
  then show ?case by auto
qed

lemma concat_split_words: "\<forall>w \<in> set ws. SP \<notin> set w \<Longrightarrow> concat (map split_js ws) = ws"
  by (induction ws) (auto simp: split_js_word)

lemma split_wrapLoop:
  "concat (map split_js (wrapLoop m W ws lines cur))
     = concat (map split_js lines) @ split_js cur @ concat (map split_js ws)"
proof (induction ws arbitrary: lines cur)
  case Nil
  show ?case by simp
next
  case (Cons w ws)
  show ?case
  proof (cases "m (cur @ SP # w) < W")
    case True
    then show ?thesis
      using Cons.IH [of lines "cur @ SP # w"] by (simp add: split_js_append_SP)
  next
    case False
    then show ?thesis
      using Cons.IH [of "lines @ [cur]" w] by simp
  qed
qed

lemma split_wrapText: "concat (map split_js (wrapText m t W)) = split_js t"
proof -
  obtain w ws where s: "split_js t = w # ws"
    using split_js_nonempty [of t] by (cases "split_js t") auto
  have no: "\<forall>u \<in> set (w # ws). SP \<notin> set u"
    using split_js_no_SP [of _ t] s by auto
  have "concat (map split_js (wrapText m t W)) = split_js w @ concat (map split_js ws)"
    using s by (simp add: wrapText_def split_wrapLoop)
  also have "\<dots> = concat (map split_js (w # ws))"
    by simp
  also have "\<dots> = w # ws"
    using no by (rule concat_split_words)
  finally show ?thesis
    using s by simp
qed

lemma hd_split_js_append_SP: "hd (split_js (a @ SP # b)) = hd (split_js a)"
  using split_js_nonempty [of a] by (simp add: split_js_append_SP)

lemma wrapLoop_breaks:
  assumes "\<forall>w \<in> set ws. SP \<notin> set w"
    and "successively (\<lambda>a b. W \<le> m (a @ SP # hd (split_js b))) (lines @ [cur])"
  shows "successively (\<lambda>a b. W \<le> m (a @ SP # hd (split_js b))) (wrapLoop m W ws lines cur)"
  using assms
proof (induction ws arbitrary: lines cur)
  case Nil
  then show ?case by simp
next
  case (Cons w ws)
  have w: "split_js w = [w]"
    using Cons.prems(1) by (simp add: split_js_word)
  show ?case
  proof (cases "m (cur @ SP # w) < W")
    case True
    have "successively (\<lambda>a b. W \<le> m (a @ SP # hd (split_js b))) (lines @ [cur @ SP # w])"
      using Cons.prems(2) by (simp add: successively_append_iff hd_split_js_append_SP)
    then have "successively (\<lambda>a b. W \<le> m (a @ SP # hd (split_js b)))
        (wrapLoop m W ws lines (cur @ SP # w))"
      using Cons.prems(1) by (intro Cons.IH) simp_all
    with True show ?thesis by simp
  next
    case False
    have "successively (\<lambda>a b. W \<le> m (a @ SP # hd (split_js b))) ((lines @ [cur]) @ [w])"
      using Cons.prems(2) False w
      by (subst successively_append_iff) simp
    then have "successively (\<lambda>a b. W \<le> m (a @ SP # hd (split_js b)))
        (wrapLoop m W ws (lines @ [cur]) w)"
      using Cons.prems(1) by (intro Cons.IH) simp_all
    with False show ?thesis by simp
  qed
qed

lemma wrapLoop_prefixes:
  assumes "\<forall>w \<in> set ws. SP \<notin> set w"
    and "\<forall>l \<in> set (lines @ [cur]).
           \<forall>k. 2 \<le> k \<and> k \<le> length (split_js l) \<longrightarrow> m (join_js (take k (split_js l))) < W"
  shows "\<forall>l \<in> set (wrapLoop m W ws lines cur).
           \<forall>k. 2 \<le> k \<and> k \<le> length (split_js l) \<longrightarrow> m (join_js (take k (split_js l))) < W"
  using assms
proof (induction ws arbitrary: lines cur)
  case Nil
  then show ?case by simp
next
  case (Cons w ws)
  have w: "split_js w = [w]"
    using Cons.prems(1) by (simp add: split_js_word)
  show ?case
  proof (cases "m (cur @ SP # w) < W")
    case True
    have sp: "split_js (cur @ SP # w) = split_js cur @ [w]"
      by (simp add: split_js_append_SP w)
    have new: "m (join_js (take k (split_js (cur @ SP # w)))) < W"
      if k: "2 \<le> k" "k \<le> length (split_js (cur @ SP # w))" for k
    proof (cases "k \<le> length (split_js cur)")
      case le: True
      then have "take k (split_js (cur @ SP # w)) = take k (split_js cur)"
        by (simp add: sp)
      with Cons.prems(2) k(1) le show ?thesis by simp
    next
      case False
      with k(2) have "take k (split_js (cur @ SP # w)) = split_js (cur @ SP # w)"
        by (simp add: sp)
      with True show ?thesis by (simp only: join_split_js)
    qed
    have "\<forall>l \<in> set (lines @ [cur @ SP # w]).
           \<forall>k. 2 \<le> k \<and> k \<le> length (split_js l) \<longrightarrow> m (join_js (take k (split_js l))) < W"
      using Cons.prems(2) new by auto
    then have "\<forall>l \<in> set (wrapLoop m W ws lines (cur @ SP # w)).
           \<forall>k. 2 \<le> k \<and> k \<le> length (split_js l) \<longrightarrow> m (join_js (take k (split_js l))) < W"
      using Cons.prems(1) by (intro Cons.IH) simp_all
    with True show ?thesis by simp
  next
    case False
    have "\<forall>l \<in> set ((lines @ [cur]) @ [w]).
           \<forall>k. 2 \<le> k \<and> k \<le> length (split_js l) \<longrightarrow> m (join_js (take k (split_js l))) < W"
      using Cons.prems(2) w by auto
    then have "\<forall>l \<in> set (wrapLoop m W ws (lines @ [cur]) w).
           \<forall>k. 2 \<le> k \<and> k \<le> length (split_js l) \<longrightarrow> m (join_js (take k (split_js l))) < W"
      using Cons.prems(1) by (intro Cons.IH) simp_all
    with False show ?thesis by simp
  qed
qed

text \<open>
  C7: \<open>wrapText\<close> pushes the current line after the loop, for every text, width and measure.
  The result is never empty and loses no word: split at their spaces again, the lines are the
  words of the text in their order, so the last line ends with the last word. The last line
  is the line accumulated last: between two consecutive lines the break was forced (the
  earlier line with the first word of the later one does not measure under the width), and
  within each line every accumulation of two or more words did measure under it. For the
  empty text the result is exactly one line, the empty string.
\<close>

theorem wrapText_last_line_emitted:
  "wrapText measureText text maxWidth \<noteq> []
   \<and> concat (map split_js (wrapText measureText text maxWidth)) = split_js text
   \<and> last (split_js (last (wrapText measureText text maxWidth))) = last (split_js text)
   \<and> successively (\<lambda>a b. maxWidth \<le> measureText (a @ SP # hd (split_js b)))
        (wrapText measureText text maxWidth)
   \<and> (\<forall>l \<in> set (wrapText measureText text maxWidth).
        \<forall>k. 2 \<le> k \<and> k \<le> length (split_js l)
          \<longrightarrow> measureText (join_js (take k (split_js l))) < maxWidth)
   \<and> wrapText measureText [] maxWidth = [[]]
   \<and> length (wrapText measureText [] maxWidth) = 1"
proof -
  let ?L = "wrapText measureText text maxWidth"
  obtain w ws where s: "split_js text = w # ws"
    using split_js_nonempty [of "text"] by (cases "split_js text") auto
  have L: "?L = wrapLoop measureText maxWidth ws [] w"
    using s by (simp add: wrapText_def)
  have no: "\<forall>u \<in> set (w # ws). SP \<notin> set u"
    using split_js_no_SP [of _ "text"] s by auto
  then have w: "split_js w = [w]" and nows: "\<forall>u \<in> set ws. SP \<notin> set u"
    by (simp_all add: split_js_word)
  have ne: "?L \<noteq> []"
    by (simp add: L wrapLoop_nonempty)
  have words: "concat (map split_js ?L) = split_js text"
    by (rule split_wrapText)
  have "concat (map split_js ?L)
      = concat (map split_js (butlast ?L)) @ split_js (last ?L)"
    using ne by (subst (1) append_butlast_last_id [OF ne, symmetric]) (simp del: append_butlast_last_id)
  then have "last (concat (map split_js ?L)) = last (split_js (last ?L))"
    by (simp add: split_js_nonempty)
  then have lastw: "last (split_js (last ?L)) = last (split_js text)"
    by (simp add: words)
  have breaks: "successively (\<lambda>a b. maxWidth \<le> measureText (a @ SP # hd (split_js b))) ?L"
    unfolding L using nows by (intro wrapLoop_breaks) simp_all
  have fits: "\<forall>l \<in> set ?L. \<forall>k. 2 \<le> k \<and> k \<le> length (split_js l)
          \<longrightarrow> measureText (join_js (take k (split_js l))) < maxWidth"
    unfolding L using nows w by (intro wrapLoop_prefixes) simp_all
  have empty: "wrapText measureText [] maxWidth = [[]]"
    by (simp add: wrapText_def)
  show ?thesis
    using ne words lastw breaks fits empty by simp
qed

text \<open>
  C9: for every text, width and measure, joining the lines of \<open>wrapText\<close> with one space gives
  back the text, code unit for code unit.
\<close>

theorem wrapText_join_roundtrip:
  "join_js (wrapText measureText text maxWidth) = text"
proof -
  obtain w ws where s: "split_js text = w # ws"
    using split_js_nonempty [of "text"] by (cases "split_js text") auto
  have "join_js (wrapText measureText text maxWidth) = join_js (w # ws)"
    using s by (simp add: wrapText_def join_wrapLoop)
  also have "\<dots> = text"
    using s join_split_js [of "text"] by simp
  finally show ?thesis .
qed

theorem wrapText_last_line_emitted_witness:
  "wrapText (\<lambda>s. real (length s)) [104, 105, 32, 121, 111] 3 = [[104, 105], [121, 111]]
   \<and> last (split_js (last (wrapText (\<lambda>s. real (length s)) [104, 105, 32, 121, 111] 3)))
       = [121, 111]
   \<and> concat (map split_js (wrapText (\<lambda>s. real (length s)) [104, 105, 32, 121, 111] 3))
       = [[104, 105], [121, 111]]
   \<and> wrapText (\<lambda>s. real (length s)) [104, 105, 32, 121, 111] 6 = [[104, 105, 32, 121, 111]]
   \<and> wrapText (\<lambda>s. real (length s)) [] 3 = [[]]"
  using wrapText_last_line_emitted [of "\<lambda>s. real (length s)" "[104, 105, 32, 121, 111]" 3]
    wrapText_last_line_emitted [of "\<lambda>s. real (length s)" "[104, 105, 32, 121, 111]" 6]
  by (simp add: wrapText_def)

theorem wrapText_join_roundtrip_witness:
  "join_js (wrapText (\<lambda>s. real (length s)) [104, 105, 32, 32, 121, 111, 32] 3)
     = [104, 105, 32, 32, 121, 111, 32]"
  using wrapText_join_roundtrip [of "\<lambda>s. real (length s)" "[104, 105, 32, 32, 121, 111, 32]" 3]
  by simp

text \<open>
  C6, as \<open>wrapText\<close> does it: a line of two or more words was measured before it was extended
  and measures under \<open>maxWidth\<close>; a line that does not measure under \<open>maxWidth\<close> is a single
  word of the text, one that measures \<open>maxWidth\<close> or more. No word is split: the lines, split
  at their spaces again, are the words of the text in their order.
\<close>

theorem wrapText_line_widths:
  "(\<forall>line \<in> set (wrapText measureText text maxWidth).
      measureText line < maxWidth
      \<or> (line \<in> set (split_js text) \<and> maxWidth \<le> measureText line))
   \<and> concat (map split_js (wrapText measureText text maxWidth)) = split_js text"
proof -
  obtain w ws where s: "split_js text = w # ws"
    using split_js_nonempty [of "text"] by (cases "split_js text") auto
  have "\<forall>l \<in> set (wrapLoop measureText maxWidth ws [] w).
          measureText l < maxWidth \<or> l \<in> set (split_js text)"
    using s by (intro wrapLoop_lines) auto
  then have "\<forall>l \<in> set (wrapText measureText text maxWidth).
          measureText l < maxWidth \<or> l \<in> set (split_js text)"
    using s by (simp add: wrapText_def)
  then have "\<forall>l \<in> set (wrapText measureText text maxWidth).
          measureText l < maxWidth \<or> (l \<in> set (split_js text) \<and> maxWidth \<le> measureText l)"
    by (meson not_le)
  then show ?thesis
    by (simp add: split_wrapText)
qed

theorem wrapText_line_widths_witness:
  "wrapText (\<lambda>s. real (length s)) [97, 98, 32, 99, 32, 100, 101, 102, 103, 104, 105] 5
     = [[97, 98, 32, 99], [100, 101, 102, 103, 104, 105]]
   \<and> real (length [97, 98, 32, 99 :: uint16]) < 5
   \<and> [100, 101, 102, 103, 104, 105]
       \<in> set (split_js [97, 98, 32, 99, 32, 100, 101, 102, 103, 104, 105])
   \<and> (5::real) \<le> real (length [100, 101, 102, 103, 104, 105 :: uint16])
   \<and> concat (map split_js
         (wrapText (\<lambda>s. real (length s)) [97, 98, 32, 99, 32, 100, 101, 102, 103, 104, 105] 5))
       = split_js [97, 98, 32, 99, 32, 100, 101, 102, 103, 104, 105]"
  using wrapText_line_widths
    [of "\<lambda>s. real (length s)" "[97, 98, 32, 99, 32, 100, 101, 102, 103, 104, 105]" 5]
  by (simp add: wrapText_def)

text \<open>
  The statement with "wider than" in place of "at least as wide" fails for a word that measures
  exactly \<open>maxWidth\<close>: with the length as the measure, the text \<open>ab\<close> and width 2, the one line
  neither measures under 2 nor is wider than 2.
\<close>

theorem wrapText_exact_width_counterexample:
  "wrapText (\<lambda>s. real (length s)) [97, 98] 2 = [[97, 98]]
   \<and> \<not> real (length [97, 98 :: uint16]) < 2 \<and> \<not> 2 < real (length [97, 98 :: uint16])"
  by (simp add: wrapText_def)

text \<open>
  C4: the sizes are one of three fixed pairs, chosen by the total number of code units of the
  Arabic and the English text with strict comparisons: above 800 the pair (42, 32), else above
  500 the pair (52, 40), else (64, 48). A total of 799 or 800 gives the medium pair, 801 the
  smallest.
\<close>

theorem baseSizes_ladder:
  "(baseArabicSize h, baseEnglishSize h) = baseSizes (length (arabic h) + length (english h))
   \<and> (800 < count \<longrightarrow> baseSizes count = (42, 32))
   \<and> (500 < count \<and> count \<le> 800 \<longrightarrow> baseSizes count = (52, 40))
   \<and> (count \<le> 500 \<longrightarrow> baseSizes count = (64, 48))
   \<and> baseSizes count \<in> {(42, 32), (52, 40), (64, 48)}
   \<and> baseSizes 799 = (52, 40) \<and> baseSizes 800 = (52, 40) \<and> baseSizes 801 = (42, 32)
   \<and> baseSizes 500 = (64, 48) \<and> baseSizes 501 = (52, 40)"
  by (simp add: baseSizes_def baseArabicSize_def baseEnglishSize_def totalCharCount_def)

theorem baseSizes_ladder_witness:
  "(500::nat) < 799 \<and> (799::nat) \<le> 800 \<and> baseSizes 799 = (52, 40)
   \<and> (800::nat) < 801 \<and> baseSizes 801 = (42, 32)
   \<and> (baseArabicSize exampleHadith, baseEnglishSize exampleHadith) = (64, 48)"
  using baseSizes_ladder [of exampleHadith 799] baseSizes_ladder [of exampleHadith 801]
    baseSizes_ladder [of exampleHadith 2]
  by (simp add: exampleHadith_def numeral_2_eq_2)

text \<open>
  C10: a larger total never selects a larger Arabic or English size, and in every pair the
  Arabic size is strictly greater than the English size.
\<close>

theorem baseSizes_monotone:
  "a \<le> b \<Longrightarrow>
     fst (baseSizes b) \<le> fst (baseSizes a) \<and> snd (baseSizes b) \<le> snd (baseSizes a)
     \<and> snd (baseSizes a) < fst (baseSizes a)"
  by (simp add: baseSizes_def)

theorem baseSizes_monotone_witness:
  "(500::nat) \<le> 801 \<and> fst (baseSizes 801) \<le> fst (baseSizes 500)
   \<and> snd (baseSizes 801) \<le> snd (baseSizes 500) \<and> snd (baseSizes 500) < fst (baseSizes 500)"
  using baseSizes_monotone [of 500 801] by simp

section \<open>Properties of the cover-fit\<close>

text \<open>
  C8: for a video of aspect 16:9 on the 1080 by 1920 canvas the rectangle drawn is as high as
  the canvas with vertical offset 0, wider than the canvas, and centred horizontally, so that
  its left edge lies left of the canvas.
\<close>

theorem coverFit_16_9:
  assumes "0 < videoHeight" and "9 * videoWidth = 16 * videoHeight"
  shows "\<exists>r. coverFit canvasWidth canvasHeight videoWidth videoHeight = Some r
     \<and> real canvasWidth < drawW r \<and> drawY r = 0 \<and> drawH r = real canvasHeight
     \<and> drawX r = (real canvasWidth - drawW r) / 2 \<and> drawX r < 0"
proof -
  have w: "0 < videoWidth"
    using assms by (cases videoWidth) auto
  have "9 * real videoWidth = 16 * real videoHeight"
    using assms(2) by (metis of_nat_mult of_nat_numeral)
  then have asp: "real videoWidth / real videoHeight = 16 / 9"
    using assms(1) by (simp add: field_simps)
  show ?thesis
    using assms(1) w by (simp add: coverFit_def canvasWidth_def canvasHeight_def asp Let_def)
qed

theorem coverFit_16_9_witness:
  "(0::nat) < 1080 \<and> 9 * (1920::nat) = 16 * 1080
   \<and> (\<exists>r. coverFit canvasWidth canvasHeight 1920 1080 = Some r
     \<and> real canvasWidth < drawW r \<and> drawY r = 0 \<and> drawH r = real canvasHeight
     \<and> drawX r = (real canvasWidth - drawW r) / 2 \<and> drawX r < 0)"
  using coverFit_16_9 [of 1080 1920] by simp

section \<open>Properties of the audio decode\<close>

lemma int16_elems_length: "length (int16_elems bs) = length bs div 2"
  by (induction bs rule: int16_elems.induct) auto

lemma int16_elems_nth:
  "k < length bs div 2 \<Longrightarrow> int16_elems bs ! k = le16 (bs ! (2 * k)) (bs ! (2 * k + 1))"
proof (induction bs arbitrary: k rule: int16_elems.induct)
  case (1 lo hi rest)
  then show ?case by (cases k) auto
next
  case (2 b)
  then show ?case by simp
next
  case 3
  then show ?case by simp
qed

lemma store_length: "length (store cd i v) = length cd"
  by (simp add: store_def)

lemma innerLoop_length: "length (innerLoop d n c fc i cd) = length cd"
proof (induction d n c fc i cd rule: innerLoop.induct)
  case (1 d n c fc i cd)
  show ?case
  proof (cases "real i < fc")
    case True
    with "1.IH" show ?thesis
      by (subst innerLoop.simps) (simp add: store_length)
  next
    case False
    then show ?thesis
      by (subst innerLoop.simps) simp
  qed
qed

lemma innerLoop_nth:
  "j < length cd \<Longrightarrow>
   innerLoop d n c fc i cd ! j
     = (if i \<le> j \<and> real j < fc then sampleAt d (j * n + c) else cd ! j)"
proof (induction d n c fc i cd rule: innerLoop.induct)
  case (1 d n c fc i cd)
  show ?case
  proof (cases "real i < fc")
    case True
    have len: "j < length (store cd i (sampleAt d (i * n + c)))"
      using "1.prems" by (simp add: store_length)
    have "innerLoop d n c fc i cd ! j
        = innerLoop d n c fc (Suc i) (store cd i (sampleAt d (i * n + c))) ! j"
      using True by (subst innerLoop.simps) simp
    also have "\<dots> = (if Suc i \<le> j \<and> real j < fc then sampleAt d (j * n + c)
                     else store cd i (sampleAt d (i * n + c)) ! j)"
      using "1.IH" [OF True len] .
    also have "\<dots> = (if i \<le> j \<and> real j < fc then sampleAt d (j * n + c) else cd ! j)"
      using True "1.prems" by (cases "j = i") (auto simp: store_def nth_list_update)
    finally show ?thesis .
  next
    case False
    then have "innerLoop d n c fc i cd = cd"
      by (subst innerLoop.simps) simp
    moreover have "\<not> (i \<le> j \<and> real j < fc)"
      using False by auto
    ultimately show ?thesis by auto
  qed
qed

lemma outerLoop_fields:
  "numberOfChannels (outerLoop d n fc ch b) = numberOfChannels b
   \<and> length_frames (outerLoop d n fc ch b) = length_frames b
   \<and> sampleRate (outerLoop d n fc ch b) = sampleRate b
   \<and> length (getChannelData (outerLoop d n fc ch b)) = length (getChannelData b)"
proof (induction d n fc ch b rule: outerLoop.induct)
  case (1 d n fc ch b)
  show ?case
  proof (cases "ch < n")
    case True
    with "1.IH" show ?thesis
      by (subst (1 2 3 4) outerLoop.simps) simp
  next
    case False
    then show ?thesis
      by (subst (1 2 3 4) outerLoop.simps) simp
  qed
qed

lemma outerLoop_channel:
  "c < length (getChannelData b) \<Longrightarrow>
   getChannelData (outerLoop d n fc ch b) ! c
     = (if ch \<le> c \<and> c < n then innerLoop d n c fc 0 (getChannelData b ! c)
        else getChannelData b ! c)"
proof (induction d n fc ch b rule: outerLoop.induct)
  case (1 d n fc ch b)
  show ?case
  proof (cases "ch < n")
    case True
    let ?b' = "b\<lparr>getChannelData := (getChannelData b)
                 [ch := innerLoop d n ch fc 0 (getChannelData b ! ch)]\<rparr>"
    have len: "c < length (getChannelData ?b')"
      using "1.prems" by simp
    have "getChannelData (outerLoop d n fc ch b) ! c
        = getChannelData (outerLoop d n fc (Suc ch) ?b') ! c"
      using True by (subst outerLoop.simps) simp
    also have "\<dots> = (if Suc ch \<le> c \<and> c < n then innerLoop d n c fc 0 (getChannelData ?b' ! c)
                     else getChannelData ?b' ! c)"
      using "1.IH" [OF True len] .
    also have "\<dots> = (if ch \<le> c \<and> c < n then innerLoop d n c fc 0 (getChannelData b ! c)
                     else getChannelData b ! c)"
      using True "1.prems" by (cases "c = ch") (auto simp: nth_list_update)
    finally show ?thesis .
  next
    case False
    then have "outerLoop d n fc ch b = b"
      by (subst outerLoop.simps) simp
    moreover have "\<not> (ch \<le> c \<and> c < n)"
      using False by auto
    ultimately show ?thesis by auto
  qed
qed

lemma frameCount_floor:
  assumes "0 < n"
  shows "\<lfloor>real m / real_of_int n\<rfloor> = int (m div nat n)"
proof -
  have "real_of_int n = real (nat n)"
    using assms by simp
  then show ?thesis
    by (simp only: floor_divide_of_nat_eq)
qed

lemma sint16_range:
  fixes w :: int16
  shows "- 1 \<le> real_of_int (sint w) / 32768 \<and> real_of_int (sint w) / 32768 < 1"
proof -
  have "- 32768 \<le> sint w" and "sint w < 32768"
    using sint_ge [of w] sint_lt [of w] by simp_all
  then have "- 32768 \<le> real_of_int (sint w)" and "real_of_int (sint w) < 32768"
    by linarith+
  then show ?thesis by linarith
qed

lemma createBuffer_Inr:
  "createBuffer ctx channels len rate = Inr b \<longleftrightarrow>
     (0 < channels \<and> channels \<le> int (maxChannels ctx) \<and> 0 < \<lfloor>len\<rfloor>
      \<and> 0 < rate \<and> minSampleRate ctx \<le> rate \<and> rate \<le> maxSampleRate ctx
      \<and> b = \<lparr>numberOfChannels = nat channels, length_frames = nat \<lfloor>len\<rfloor>,
                sampleRate = rate,
                getChannelData = replicate (nat channels) (replicate (nat \<lfloor>len\<rfloor>) (Num 0))\<rparr>)"
  by (auto simp: createBuffer_def)

lemma createBuffer_Inl:
  "createBuffer ctx channels len rate = Inl e \<longleftrightarrow>
     (e = NotSupportedError \<and>
      (channels \<le> 0 \<or> int (maxChannels ctx) < channels \<or> \<lfloor>len\<rfloor> \<le> 0
       \<or> rate \<le> 0 \<or> rate < minSampleRate ctx \<or> maxSampleRate ctx < rate))"
  by (auto simp: createBuffer_def)

lemma decodeRawPcm_odd: "odd (length data) \<Longrightarrow> decodeRawPcm data ctx rate n = Inl RangeError"
  by (simp add: decodeRawPcm_def Int16Array_def)

lemma decodeRawPcm_even:
  "even (length data) \<Longrightarrow>
   decodeRawPcm data ctx rate n =
     (case createBuffer ctx n (real (length data div 2) / real_of_int n) rate of
        Inl e \<Rightarrow> Inl e
      | Inr buffer \<Rightarrow>
          Inr (outerLoop (int16_elems data) (nat n) (real (length data div 2) / real_of_int n)
                 0 buffer))"
  by (simp add: decodeRawPcm_def Int16Array_def int16_elems_length Let_def)

lemma decode_fails_iff:
  "(\<exists>e. decodeRawPcm data ctx rate n = Inl e) \<longleftrightarrow>
     (odd (length data) \<or> n \<le> 0 \<or> length data div 2 div nat n = 0
      \<or> int (maxChannels ctx) < n
      \<or> rate \<le> 0 \<or> rate < minSampleRate ctx \<or> maxSampleRate ctx < rate)"
proof (cases "odd (length data)")
  case True
  then show ?thesis by (simp add: decodeRawPcm_odd)
next
  case False
  then have ev: "even (length data)" by simp
  show ?thesis
  proof (cases "0 < n")
    case neg: False
    then have "createBuffer ctx n (real (length data div 2) / real_of_int n) rate
               = Inl NotSupportedError"
      by (simp add: createBuffer_def)
    with neg ev show ?thesis
      by (simp add: decodeRawPcm_even)
  next
    case pos: True
    have fl: "\<lfloor>real (length data div 2) / real_of_int n\<rfloor> = int (length data div 2 div nat n)"
      using pos by (rule frameCount_floor)
    show ?thesis
      using ev pos
      by (auto simp: decodeRawPcm_even createBuffer_def fl split: sum.splits)
  qed
qed

lemma frame_index_bound:
  fixes i n c m :: nat
  assumes "i < m div n" and "c < n"
  shows "i * n + c < m"
proof -
  have "i * n + c < Suc i * n"
    using assms(2) by simp
  also have "\<dots> \<le> (m div n) * n"
    using assms(1) by (intro mult_le_mono1) simp
  also have "\<dots> \<le> m"
    by simp
  finally show ?thesis .
qed

text \<open>
  C1, as the code has it: the decode fails with RangeError when the byte length is odd, and
  with NotSupportedError when the length is even and \<open>numChannels\<close> is at most 0 or the frame
  count \<open>floor(len/2/numChannels)\<close> is 0. These are not the only failures: the decode fails
  exactly when one of the three holds or the audio context does not take the channel count
  (above its limit) or the sample rate (not positive, or outside its range). For all other
  inputs it succeeds.
\<close>

theorem decodeRawPcm_failure_conditions:
  "(odd (length data) \<longrightarrow> decodeRawPcm data ctx rate numChannels = Inl RangeError)
   \<and> (even (length data) \<and> (numChannels \<le> 0 \<or> length data div 2 div nat numChannels = 0)
        \<longrightarrow> decodeRawPcm data ctx rate numChannels = Inl NotSupportedError)
   \<and> ((\<exists>e. decodeRawPcm data ctx rate numChannels = Inl e) \<longleftrightarrow>
        (odd (length data) \<or> numChannels \<le> 0 \<or> length data div 2 div nat numChannels = 0
         \<or> int (maxChannels ctx) < numChannels
         \<or> rate \<le> 0 \<or> rate < minSampleRate ctx \<or> maxSampleRate ctx < rate))"
proof (intro conjI impI)
  assume "odd (length data)"
  then show "decodeRawPcm data ctx rate numChannels = Inl RangeError"
    by (rule decodeRawPcm_odd)
next
  assume a: "even (length data) \<and> (numChannels \<le> 0 \<or> length data div 2 div nat numChannels = 0)"
  then have "\<exists>e. decodeRawPcm data ctx rate numChannels = Inl e"
    unfolding decode_fails_iff by blast
  then obtain e where e: "decodeRawPcm data ctx rate numChannels = Inl e" ..
  with a have "createBuffer ctx numChannels (real (length data div 2) / real_of_int numChannels) rate
      = Inl e"
    by (simp add: decodeRawPcm_even split: sum.splits)
  then have "e = NotSupportedError"
    by (simp add: createBuffer_Inl)
  with e show "decodeRawPcm data ctx rate numChannels = Inl NotSupportedError"
    by simp
next
  show "(\<exists>e. decodeRawPcm data ctx rate numChannels = Inl e) \<longleftrightarrow>
        (odd (length data) \<or> numChannels \<le> 0 \<or> length data div 2 div nat numChannels = 0
         \<or> int (maxChannels ctx) < numChannels
         \<or> rate \<le> 0 \<or> rate < minSampleRate ctx \<or> maxSampleRate ctx < rate)"
    by (rule decode_fails_iff)
qed

theorem decodeRawPcm_failure_conditions_witness:
  "decodeRawPcm [0, 0, 0] referenceContext 24000 1 = Inl RangeError
   \<and> decodeRawPcm [0, 0] referenceContext 24000 0 = Inl NotSupportedError
   \<and> decodeRawPcm [0, 0] referenceContext 24000 2 = Inl NotSupportedError
   \<and> \<not> (\<exists>e. decodeRawPcm [0, 0] referenceContext 24000 1 = Inl e)"
  using decodeRawPcm_failure_conditions [of "[0, 0, 0]" referenceContext 24000 1]
    decodeRawPcm_failure_conditions [of "[0, 0]" referenceContext 24000 0]
    decodeRawPcm_failure_conditions [of "[0, 0]" referenceContext 24000 2]
    decodeRawPcm_failure_conditions [of "[0, 0]" referenceContext 24000 1]
  by (simp add: referenceContext_def)

text \<open>
  Without the conditions on the audio context the statement fails: two bytes, one channel and
  sample rate 0 are an even length, a positive channel count and one frame, and the decode
  fails.
\<close>

theorem decodeRawPcm_unsupported_rate_counterexample:
  "even (length [0, 0 :: uint8]) \<and> \<not> (1::int) \<le> 0
   \<and> length [0, 0 :: uint8] div 2 div nat 1 \<noteq> 0
   \<and> decodeRawPcm [0, 0] referenceContext 0 1 = Inl NotSupportedError"
  by (simp add: decodeRawPcm_def Int16Array_def createBuffer_def referenceContext_def)

text \<open>
  C2, as the code has it: for an even number of bytes, at least \<open>2 * numChannels\<close> of them,
  and a channel count (at least 1) and sample rate that the audio context takes, the decode
  returns a buffer of \<open>numChannels\<close> channels with \<open>floor(len/2/numChannels)\<close> samples each;
  sample \<open>i\<close> of channel \<open>c\<close> is the signed value of the little-endian 16-bit element
  \<open>i * numChannels + c\<close> divided by 32768, which lies in \<open>[-1, 1)\<close>. The elements after the
  last whole frame are not used.
\<close>

theorem decodeRawPcm_samples:
  assumes ev: "even (length data)" and pos: "0 < numChannels"
    and len: "2 * nat numChannels \<le> length data"
    and ch: "numChannels \<le> int (maxChannels ctx)"
    and rt: "0 < rate" "minSampleRate ctx \<le> rate" "rate \<le> maxSampleRate ctx"
  shows "\<exists>buffer. decodeRawPcm data ctx rate numChannels = Inr buffer
      \<and> numberOfChannels buffer = nat numChannels
      \<and> length_frames buffer = length data div 2 div nat numChannels
      \<and> sampleRate buffer = rate
      \<and> length (getChannelData buffer) = nat numChannels
      \<and> (\<forall>c < nat numChannels.
            length (getChannelData buffer ! c) = length data div 2 div nat numChannels
            \<and> (\<forall>i < length data div 2 div nat numChannels.
                  getChannelData buffer ! c ! i
                    = Num (real_of_int (sint (int16_elems data ! (i * nat numChannels + c))) / 32768)
                  \<and> int16_elems data ! (i * nat numChannels + c)
                    = le16 (data ! (2 * (i * nat numChannels + c)))
                        (data ! (2 * (i * nat numChannels + c) + 1))
                  \<and> - 1 \<le> real_of_int (sint (int16_elems data ! (i * nat numChannels + c))) / 32768
                  \<and> real_of_int (sint (int16_elems data ! (i * nat numChannels + c))) / 32768 < 1))"
proof -
  let ?n = "nat numChannels"
  let ?m = "length data div 2"
  let ?fc = "real ?m / real_of_int numChannels"
  let ?frames = "?m div ?n"
  let ?d = "int16_elems data"
  let ?init = "\<lparr>numberOfChannels = ?n, length_frames = ?frames, sampleRate = rate,
              getChannelData = replicate ?n (replicate ?frames (Num 0))\<rparr>"
  have fl: "\<lfloor>?fc\<rfloor> = int ?frames"
    using pos by (rule frameCount_floor)
  have "?n \<le> ?m"
    using len by simp
  then have frames_pos: "0 < ?frames"
    using pos by (simp add: div_greater_zero_iff)
  have cb: "createBuffer ctx numChannels ?fc rate = Inr ?init"
    using pos ch rt frames_pos by (simp add: createBuffer_Inr fl)
  let ?b = "outerLoop ?d ?n ?fc 0 ?init"
  have dec: "decodeRawPcm data ctx rate numChannels = Inr ?b"
    using ev cb by (simp add: decodeRawPcm_even)
  have fields: "numberOfChannels ?b = ?n" "length_frames ?b = ?frames" "sampleRate ?b = rate"
      "length (getChannelData ?b) = ?n"
    using outerLoop_fields [of ?d ?n ?fc 0 ?init] by simp_all
  have chan: "getChannelData ?b ! c = innerLoop ?d ?n c ?fc 0 (replicate ?frames (Num 0))"
    if "c < ?n" for c
    using that outerLoop_channel [of c ?init ?d ?n ?fc 0] by simp
  have samples: "length (getChannelData ?b ! c) = ?frames
      \<and> (\<forall>i < ?frames.
            getChannelData ?b ! c ! i = Num (real_of_int (sint (?d ! (i * ?n + c))) / 32768)
            \<and> ?d ! (i * ?n + c) = le16 (data ! (2 * (i * ?n + c))) (data ! (2 * (i * ?n + c) + 1))
            \<and> - 1 \<le> real_of_int (sint (?d ! (i * ?n + c))) / 32768
            \<and> real_of_int (sint (?d ! (i * ?n + c))) / 32768 < 1)"
    if c: "c < ?n" for c
  proof (intro conjI allI impI)
    show "length (getChannelData ?b ! c) = ?frames"
      using chan [OF c] by (simp add: innerLoop_length)
  next
    fix i assume i: "i < ?frames"
    have "real_of_int (int i) < real_of_int \<lfloor>?fc\<rfloor>"
      using i fl by simp
    also have "\<dots> \<le> ?fc"
      by (rule of_int_floor_le)
    finally have lt: "real i < ?fc"
      by simp
    have inr: "i * ?n + c < length ?d"
      using frame_index_bound [OF i c] by (simp add: int16_elems_length)
    have "getChannelData ?b ! c ! i = sampleAt ?d (i * ?n + c)"
      using chan [OF c] i lt by (simp add: innerLoop_nth)
    also have "\<dots> = Num (real_of_int (sint (?d ! (i * ?n + c))) / 32768)"
      using inr unfolding sampleAt_def by (simp only: if_True)
    finally show "getChannelData ?b ! c ! i
        = Num (real_of_int (sint (?d ! (i * ?n + c))) / 32768)" .
  next
    fix i assume i: "i < ?frames"
    show "?d ! (i * ?n + c) = le16 (data ! (2 * (i * ?n + c))) (data ! (2 * (i * ?n + c) + 1))"
      using frame_index_bound [OF i c] by (rule int16_elems_nth)
  next
    fix i assume "i < ?frames"
    show "- 1 \<le> real_of_int (sint (?d ! (i * ?n + c))) / 32768"
      using sint16_range [of "?d ! (i * ?n + c)"] by (rule conjunct1)
  next
    fix i assume "i < ?frames"
    show "real_of_int (sint (?d ! (i * ?n + c))) / 32768 < 1"
      using sint16_range [of "?d ! (i * ?n + c)"] by (rule conjunct2)
  qed
  show ?thesis
    using dec fields samples by blast
qed

theorem decodeRawPcm_samples_witness:
  "\<exists>buffer. decodeRawPcm [0, 128, 255, 127, 7, 7] referenceContext 24000 2 = Inr buffer
     \<and> numberOfChannels buffer = 2
     \<and> length_frames buffer = 1
     \<and> getChannelData buffer ! 0 = [Num (- 1)]
     \<and> getChannelData buffer ! 1 = [Num (32767 / 32768)]"
proof -
  let ?data = "[0, 128, 255, 127, 7, 7] :: uint8 list"
  let ?d = "int16_elems ?data"
  have "even (length ?data)" and "(0::int) < 2" and "2 * nat 2 \<le> length ?data"
    and "(2::int) \<le> int (maxChannels referenceContext)"
    and "(0::int) < 24000" and "minSampleRate referenceContext \<le> 24000"
    and "24000 \<le> maxSampleRate referenceContext"
    by (simp_all add: referenceContext_def)
  from decodeRawPcm_samples [OF this]
  obtain buffer where
    dec: "decodeRawPcm ?data referenceContext 24000 2 = Inr buffer"
    and nch: "numberOfChannels buffer = nat 2"
    and frames: "length_frames buffer = length ?data div 2 div nat 2"
    and samples: "\<forall>c < nat 2.
        length (getChannelData buffer ! c) = length ?data div 2 div nat 2
        \<and> (\<forall>i < length ?data div 2 div nat 2.
              getChannelData buffer ! c ! i
                = Num (real_of_int (sint (?d ! (i * nat 2 + c))) / 32768)
              \<and> ?d ! (i * nat 2 + c)
                = le16 (?data ! (2 * (i * nat 2 + c))) (?data ! (2 * (i * nat 2 + c) + 1))
              \<and> - 1 \<le> real_of_int (sint (?d ! (i * nat 2 + c))) / 32768
              \<and> real_of_int (sint (?d ! (i * nat 2 + c))) / 32768 < 1)"
    by blast
  have l0: "length (getChannelData buffer ! 0) = 1"
    and l1: "length (getChannelData buffer ! 1) = 1"
    and s0: "getChannelData buffer ! 0 ! 0 = Num (- 1)"
    and s1: "getChannelData buffer ! 1 ! 0 = Num (32767 / 32768)"
    using samples by (simp_all add: le16_def)
  have "getChannelData buffer ! 0 = [Num (- 1)]"
    using l0 s0 by (cases "getChannelData buffer ! 0") simp_all
  moreover have "getChannelData buffer ! 1 = [Num (32767 / 32768)]"
    using l1 s1 by (cases "getChannelData buffer ! 1") simp_all
  ultimately show ?thesis
    using dec nch frames by simp
qed

text \<open>
  Without the conditions on the audio context no buffer need be returned: 66 bytes for 33
  channels are an even length of at least \<open>2 * 33\<close> bytes, and a context that takes 32 channels
  rejects the call.
\<close>

theorem decodeRawPcm_channel_limit_counterexample:
  "even (length (replicate 66 (0 :: uint8)))
   \<and> 2 * nat 33 \<le> length (replicate 66 (0 :: uint8))
   \<and> decodeRawPcm (replicate 66 0) referenceContext 24000 33 = Inl NotSupportedError"
  by (simp add: decodeRawPcm_def Int16Array_def createBuffer_def referenceContext_def)

section \<open>Properties of double rounding\<close>

lemma bitlen_numeral_eval: "bitlen (numeral k) = bitlen (numeral k div 2) + 1"
  by (subst compute_bitlen) simp

lemma bitlen_one_eval: "bitlen 1 = 1"
  by (subst compute_bitlen) simp

lemmas dbl_eval = roundDouble_def binade_def roundTiesToEven_def bitlen_numeral_eval
  bitlen_one_eval Let_def

lemma binade_bounds:
  assumes "x \<noteq> 0"
  shows "2 powi binade x \<le> \<bar>x\<bar> \<and> \<bar>x\<bar> < 2 powi (binade x + 1)"
proof (cases "1 \<le> \<bar>x\<bar>")
  case True
  define n where "n = \<lfloor>\<bar>x\<bar>\<rfloor>"
  have n1: "1 \<le> n"
    using True by (simp add: n_def le_floor_iff)
  then have b: "2 ^ nat (bitlen n - 1) \<le> n" "n < 2 ^ nat (bitlen n)"
    using bitlen_bounds [of n] by simp_all
  have bl: "1 \<le> bitlen n"
    using n1 bitlen_eq_zero_iff [of n] bitlen_nonneg [of n] by linarith
  have e: "binade x = bitlen n - 1"
    using True by (simp add: binade_def n_def)
  have "(2::real) powi (bitlen n - 1) = 2 ^ nat (bitlen n - 1)"
    using bl by (simp add: power_int_def)
  also have "\<dots> = real_of_int (2 ^ nat (bitlen n - 1))"
    by simp
  also have "\<dots> \<le> real_of_int n"
    using b(1) by (simp only: of_int_le_iff)
  also have "\<dots> \<le> \<bar>x\<bar>"
    by (simp add: n_def)
  finally have lo: "2 powi binade x \<le> \<bar>x\<bar>"
    by (simp add: e)
  have "n + 1 \<le> 2 ^ nat (bitlen n)"
    using b(2) by simp
  then have "real_of_int (n + 1) \<le> real_of_int (2 ^ nat (bitlen n))"
    by (simp only: of_int_le_iff)
  moreover have "\<bar>x\<bar> < real_of_int (n + 1)"
    by (simp add: n_def)
  moreover have "(2::real) powi (bitlen n) = 2 ^ nat (bitlen n)"
    using bl by (simp add: power_int_def)
  ultimately have "\<bar>x\<bar> < 2 powi (binade x + 1)"
    by (simp add: e)
  with lo show ?thesis ..
next
  case False
  define a where "a = \<bar>x\<bar>"
  have a: "0 < a" "a < 1"
    using assms False by (simp_all add: a_def)
  define m where "m = \<lceil>1 / a\<rceil>"
  have y1: "1 < 1 / a"
    using a by simp
  have m2: "1 \<le> m - 1"
    using y1 unfolding m_def by linarith
  define k where "k = bitlen (m - 1)"
  have b: "2 ^ nat (k - 1) \<le> m - 1" "m - 1 < 2 ^ nat k"
    using bitlen_bounds [of "m - 1"] m2 by (simp_all add: k_def)
  have k1: "1 \<le> k"
    using m2 bitlen_eq_zero_iff [of "m - 1"] bitlen_nonneg [of "m - 1"]
    unfolding k_def by linarith
  have e: "binade x = - k"
    using False by (simp add: binade_def k_def m_def a_def)
  have "m \<le> 2 ^ nat k"
    using b(2) by simp
  then have mk: "real_of_int m \<le> real_of_int (2 ^ nat k)"
    by (simp only: of_int_le_iff)
  have "1 / a \<le> real_of_int m"
    by (simp add: m_def)
  also note mk
  finally have up: "1 / a \<le> 2 ^ nat k"
    by simp
  have "1 / 2 ^ nat k \<le> a"
    using up a by (simp add: field_simps)
  moreover have "(2::real) powi (- k) = 1 / 2 ^ nat k"
    using k1 by (simp add: power_int_def field_simps)
  ultimately have lo: "2 powi binade x \<le> \<bar>x\<bar>"
    by (simp add: e a_def)
  have "real_of_int (2 ^ nat (k - 1)) \<le> real_of_int (m - 1)"
    using b(1) by (simp only: of_int_le_iff)
  also have "real_of_int (m - 1) < 1 / a"
    unfolding m_def by linarith
  finally have dn: "2 ^ nat (k - 1) < 1 / a"
    by simp
  have "a < 1 / 2 ^ nat (k - 1)"
    using dn a by (simp add: field_simps)
  moreover have "(2::real) powi (- k + 1) = 1 / 2 ^ nat (k - 1)"
  proof (cases "k = 1")
    case True
    then show ?thesis by simp
  next
    case False
    with k1 have "- k + 1 < 0" by simp
    moreover have "nat (- (- k + 1)) = nat (k - 1)" by simp
    ultimately show ?thesis
      by (simp add: power_int_def field_simps)
  qed
  ultimately have "\<bar>x\<bar> < 2 powi (binade x + 1)"
    by (simp add: e a_def)
  with lo show ?thesis ..
qed

lemma roundTiesToEven_floor:
  "\<lfloor>y\<rfloor> \<le> roundTiesToEven y \<and> roundTiesToEven y \<le> \<lfloor>y\<rfloor> + 1"
  by (simp add: roundTiesToEven_def Let_def)

lemma roundTiesToEven_of_int: "roundTiesToEven (of_int n) = n"
  by (simp add: roundTiesToEven_def Let_def)

lemma roundTiesToEven_ge:
  assumes "of_int n \<le> y"
  shows "n \<le> roundTiesToEven y"
proof -
  have "n \<le> \<lfloor>y\<rfloor>"
    using assms by (simp add: le_floor_iff)
  with roundTiesToEven_floor [of y] show ?thesis by linarith
qed

lemma roundTiesToEven_le:
  assumes "y \<le> of_int n"
  shows "roundTiesToEven y \<le> n"
proof (cases "y = of_int n")
  case True
  then show ?thesis by (simp add: roundTiesToEven_of_int)
next
  case False
  with assms have "y < of_int n" by simp
  then have "\<lfloor>y\<rfloor> < n" by (simp add: floor_less_iff)
  with roundTiesToEven_floor [of y] show ?thesis by linarith
qed

lemma roundTiesToEven_mono:
  assumes "y1 \<le> y2"
  shows "roundTiesToEven y1 \<le> roundTiesToEven y2"
proof (cases "\<lfloor>y1\<rfloor> = \<lfloor>y2\<rfloor>")
  case True
  then show ?thesis
    using assms by (auto simp: roundTiesToEven_def Let_def)
next
  case False
  moreover have "\<lfloor>y1\<rfloor> \<le> \<lfloor>y2\<rfloor>"
    using assms by (rule floor_mono)
  ultimately have "\<lfloor>y1\<rfloor> + 1 \<le> \<lfloor>y2\<rfloor>"
    by simp
  with roundTiesToEven_floor [of y1] roundTiesToEven_floor [of y2] show ?thesis
    by linarith
qed

lemma roundDouble_range:
  assumes "0 < x"
  shows "2 powi binade x \<le> roundDouble x \<and> roundDouble x \<le> 2 powi (binade x + 1)"
proof -
  define u :: real where "u = 2 powi (binade x - 52)"
  have u: "0 < u"
    by (simp add: u_def)
  have bb: "2 powi binade x \<le> x" "x < 2 powi (binade x + 1)"
    using binade_bounds [of x] assms by simp_all
  have lo_u: "2 powi binade x = 2 ^ 52 * u"
    by (simp add: u_def power_int_diff)
  have hi_u: "2 powi (binade x + 1) = 2 ^ 53 * u"
    by (simp add: u_def power_int_diff power_int_add)
  have rd: "roundDouble x = of_int (roundTiesToEven (x / u)) * u"
    using assms by (simp add: roundDouble_def u_def)
  have "real_of_int (2 ^ 52) \<le> x / u"
    using bb(1) u by (simp add: lo_u field_simps)
  then have "2 ^ 52 \<le> roundTiesToEven (x / u)"
    by (rule roundTiesToEven_ge)
  then have "real_of_int (2 ^ 52) \<le> real_of_int (roundTiesToEven (x / u))"
    by (simp only: of_int_le_iff)
  then have lo: "2 powi binade x \<le> roundDouble x"
    using u by (simp add: rd lo_u)
  have "x < 2 ^ 53 * u"
    using bb(2) by (simp only: hi_u)
  then have "x / u < 2 ^ 53"
    using u by (simp only: pos_divide_less_eq)
  then have "x / u \<le> real_of_int (2 ^ 53)"
    by simp
  then have "roundTiesToEven (x / u) \<le> 2 ^ 53"
    by (rule roundTiesToEven_le)
  then have "real_of_int (roundTiesToEven (x / u)) \<le> real_of_int (2 ^ 53)"
    by (simp only: of_int_le_iff)
  then have "roundDouble x \<le> 2 powi (binade x + 1)"
    using u by (simp add: rd hi_u)
  with lo show ?thesis ..
qed

lemma binade_mono:
  assumes "0 < x" and "x \<le> y"
  shows "binade x \<le> binade y"
proof (rule ccontr)
  assume "\<not> binade x \<le> binade y"
  then have "binade y + 1 \<le> binade x" by simp
  then have "(2::real) powi (binade y + 1) \<le> 2 powi binade x"
    by (intro power_int_increasing) simp_all
  also have "\<dots> \<le> x"
    using binade_bounds [of x] assms(1) by simp
  also have "\<dots> \<le> y" by (rule assms(2))
  also have "\<dots> < 2 powi (binade y + 1)"
    using binade_bounds [of y] assms by simp
  finally show False by simp
qed

lemma roundDouble_mono:
  assumes "0 \<le> x" and "x \<le> y"
  shows "roundDouble x \<le> roundDouble y"
proof (cases "x = 0")
  case True
  show ?thesis
  proof (cases "y = 0")
    case True
    with \<open>x = 0\<close> show ?thesis by simp
  next
    case False
    with assms have "0 < y" by simp
    then have "2 powi binade y \<le> roundDouble y"
      using roundDouble_range by blast
    moreover have "(0::real) < 2 powi binade y" by simp
    moreover have "roundDouble x = 0"
      using True by (simp add: roundDouble_def)
    ultimately show ?thesis by linarith
  qed
next
  case False
  with assms have x: "0 < x" and y: "0 < y" by simp_all
  show ?thesis
  proof (cases "binade x = binade y")
    case True
    define u :: real where "u = 2 powi (binade x - 52)"
    have u: "0 < u" by (simp add: u_def)
    have "x / u \<le> y / u"
      using assms(2) u by (simp add: divide_right_mono)
    then have "roundTiesToEven (x / u) \<le> roundTiesToEven (y / u)"
      by (rule roundTiesToEven_mono)
    then have "real_of_int (roundTiesToEven (x / u)) \<le> real_of_int (roundTiesToEven (y / u))"
      by (simp only: of_int_le_iff)
    then have "real_of_int (roundTiesToEven (x / u)) * u
        \<le> real_of_int (roundTiesToEven (y / u)) * u"
      using u by (simp add: mult_right_mono)
    then show ?thesis
      using x y True by (simp add: roundDouble_def u_def)
  next
    case False
    with binade_mono [OF x assms(2)] have "binade x + 1 \<le> binade y" by simp
    then have "(2::real) powi (binade x + 1) \<le> 2 powi binade y"
      by (intro power_int_increasing) simp_all
    moreover have "roundDouble x \<le> 2 powi (binade x + 1)"
      using roundDouble_range [OF x] by blast
    moreover have "2 powi binade y \<le> roundDouble y"
      using roundDouble_range [OF y] by blast
    ultimately show ?thesis by linarith
  qed
qed

lemma roundDouble_values:
  "roundDouble 0 = 0" "roundDouble 1 = 1" "roundDouble 40 = 40" "roundDouble 60 = 60"
  "roundDouble 100 = 100"
  by (simp_all add: dbl_eval)

lemma progressValue_samples:
  "progressValue 100 2000 = 43" "progressValue 200 2000 = 46"
  "progressValue 100 7000 = 5750131667089115 / 140737488355328"
  by (simp_all add: progressValue_def dbl_eval)

section \<open>Properties of the recording\<close>

text \<open>
  C3 at a sequence of events the page can deliver: Produce is clicked and capturing starts,
  which disables Produce; Shuffle, which is disabled only while fetching, is clicked during
  the capture; when
  its fetch resolves the status is idle while the first recorder is still recording and its
  interval still polling. Produce is then enabled: the second click is not rejected, it sets
  the state to narrating with progress 10 beside the running recorder, and the next poll of
  the first session overwrites that progress.
\<close>

theorem second_record_during_capture:
  "status (genState (startEncoding (clickProduce readyState))) = generating_video
   \<and> produceDisabled (startEncoding (clickProduce readyState))
   \<and> shuffleDisabled (progressInterval 2000 (startEncoding (clickProduce readyState))) = False
   \<and> recorderState refetchedWhileCapturing = recording
   \<and> intervalActive refetchedWhileCapturing
   \<and> status (genState refetchedWhileCapturing) = idle
   \<and> produceDisabled refetchedWhileCapturing = False
   \<and> clickProduce refetchedWhileCapturing \<noteq> refetchedWhileCapturing
   \<and> status (genState (clickProduce refetchedWhileCapturing)) = generating_tts
   \<and> progress (genState (clickProduce refetchedWhileCapturing)) = 10
   \<and> recorderState (clickProduce refetchedWhileCapturing) = recording
   \<and> progress (genState (progressInterval 2000 (clickProduce refetchedWhileCapturing))) = 46"
  by (simp add: refetchedWhileCapturing_def readyState_def exampleHadith_def clickProduce_def
      produceDisabled_def generateFullVideo_start_def startEncoding_def progressInterval_def
      clickShuffle_def shuffleDisabled_def fetchHadith_start_def fetchHadith_resolved_def
      Let_def progressValue_samples)

text \<open>
  C5, as the callback does it: for a positive duration the progress stored at each poll is the
  floor of \<open>p = min(40 + (elapsed/durationMs)*60, 99)\<close>, computed in doubles with \<open>elapsed\<close>
  raised by 100 first; it is an integer from 40 to 99. The formula is 40 at \<open>elapsed = 0\<close>,
  where encoding starts with progress 40, and 99 at \<open>elapsed = durationMs\<close>; once \<open>elapsed\<close>
  has reached the duration the poll stores 99, clears the interval and stops the recorder.
  Progress 100 is set by the recorder's stop handler.
\<close>

theorem progressInterval_reports_floor:
  assumes "0 < durationMs"
  shows "progress (genState (progressInterval durationMs s))
           = \<lfloor>progressValue (real_of_int (elapsed s + 100)) durationMs\<rfloor>
     \<and> progressValue (real_of_int (elapsed s + 100)) durationMs
           = min (roundDouble (40 + roundDouble
                 (roundDouble (real_of_int (elapsed s + 100) / durationMs) * 60))) 99
     \<and> progress (genState (progressInterval durationMs s)) \<le> 99
     \<and> (0 \<le> elapsed s \<longrightarrow> 40 \<le> progress (genState (progressInterval durationMs s)))
     \<and> elapsed (progressInterval durationMs s) = elapsed s + 100
     \<and> (durationMs \<le> real_of_int (elapsed s + 100) \<longrightarrow>
          progress (genState (progressInterval durationMs s)) = 99
          \<and> \<not> intervalActive (progressInterval durationMs s)
          \<and> recorderState (progressInterval durationMs s) = inactive
          \<and> (recorderState s \<noteq> inactive \<longrightarrow> stopEvent (progressInterval durationMs s)))
     \<and> progressValue 0 durationMs = 40
     \<and> progressValue durationMs durationMs = 99
     \<and> elapsed (startEncoding a) = 0
     \<and> progress (genState (startEncoding a)) = 40
     \<and> progress (genState (recorder_onstop url s)) = 100"
proof -
  let ?e = "real_of_int (elapsed s + 100)"
  let ?q = "roundDouble (?e / durationMs)"
  let ?r = "roundDouble (40 + roundDouble (?q * 60))"
  have d: "durationMs \<noteq> 0"
    using assms by simp
  have p: "progress (genState (progressInterval durationMs s)) = \<lfloor>progressValue ?e durationMs\<rfloor>"
    by (simp add: progressInterval_def Let_def)
  have v: "progressValue ?e durationMs = min ?r 99"
    using d by (simp add: progressValue_def)
  have "progressValue ?e durationMs \<le> 99"
    using v by simp
  then have "\<lfloor>progressValue ?e durationMs\<rfloor> \<le> 99"
    by (simp add: floor_le_iff)
  then have le: "progress (genState (progressInterval durationMs s)) \<le> 99"
    using p by simp
  have ge: "40 \<le> progress (genState (progressInterval durationMs s))" if "0 \<le> elapsed s"
  proof -
    have "0 \<le> ?e / durationMs"
      using that assms by simp
    then have "roundDouble 0 \<le> ?q"
      by (intro roundDouble_mono) simp_all
    then have "0 \<le> ?q * 60"
      by (simp add: roundDouble_values)
    then have "roundDouble 0 \<le> roundDouble (?q * 60)"
      by (intro roundDouble_mono) simp_all
    then have "40 \<le> 40 + roundDouble (?q * 60)"
      by (simp add: roundDouble_values)
    then have "roundDouble 40 \<le> ?r"
      by (intro roundDouble_mono) simp_all
    then have "40 \<le> min ?r 99"
      by (simp add: roundDouble_values)
    then have "40 \<le> \<lfloor>progressValue ?e durationMs\<rfloor>"
      using v by (simp add: le_floor_iff)
    then show ?thesis
      using p by simp
  qed
  have stop: "progress (genState (progressInterval durationMs s)) = 99
          \<and> \<not> intervalActive (progressInterval durationMs s)
          \<and> recorderState (progressInterval durationMs s) = inactive
          \<and> (recorderState s \<noteq> inactive \<longrightarrow> stopEvent (progressInterval durationMs s))"
    if reached: "durationMs \<le> ?e"
  proof -
    have "1 \<le> ?e / durationMs"
      using reached assms by (simp add: field_simps)
    then have "roundDouble 1 \<le> ?q"
      by (intro roundDouble_mono) simp_all
    then have "60 \<le> ?q * 60"
      by (simp add: roundDouble_values)
    then have "roundDouble 60 \<le> roundDouble (?q * 60)"
      by (intro roundDouble_mono) simp_all
    then have "100 \<le> 40 + roundDouble (?q * 60)"
      by (simp add: roundDouble_values)
    then have "roundDouble 100 \<le> ?r"
      by (intro roundDouble_mono) simp_all
    then have "min ?r 99 = 99"
      by (simp add: roundDouble_values)
    then have "progress (genState (progressInterval durationMs s)) = 99"
      using p v by simp
    moreover have "\<not> intervalActive (progressInterval durationMs s)
          \<and> recorderState (progressInterval durationMs s) = inactive
          \<and> (recorderState s \<noteq> inactive \<longrightarrow> stopEvent (progressInterval durationMs s))"
      using reached by (simp add: progressInterval_def Let_def)
    ultimately show ?thesis by simp
  qed
  have e: "elapsed (progressInterval durationMs s) = elapsed s + 100"
    by (simp add: progressInterval_def Let_def)
  have f: "progressValue 0 durationMs = 40" "progressValue durationMs durationMs = 99"
    using d by (simp_all add: progressValue_def roundDouble_values)
  have g: "elapsed (startEncoding a) = 0" "progress (genState (startEncoding a)) = 40"
    "progress (genState (recorder_onstop url s)) = 100"
    by (simp_all add: startEncoding_def recorder_onstop_def)
  show ?thesis
    using p v le ge stop e f g by simp
qed

theorem progressInterval_reports_floor_witness:
  "(0::real) < 2000
   \<and> progress (genState (progressInterval 2000 (startEncoding capturingState))) = 43
   \<and> progress (genState (progressInterval 2000 (startEncoding capturingState))) \<le> 99
   \<and> progressValue 0 2000 = 40 \<and> progressValue 2000 2000 = 99"
  using progressInterval_reports_floor [of 2000 "startEncoding capturingState"]
  by (simp add: startEncoding_def progressValue_samples)

text \<open>
  The progress stored is not the value of the formula itself: for a duration of 7000 ms the
  first poll computes the double \<open>40.857142857142854\<close> (in exact arithmetic \<open>286/7\<close>) and
  stores 40.
\<close>

theorem progressInterval_not_exact_counterexample:
  "progress (genState (progressInterval 7000 (startEncoding capturingState))) = 40
   \<and> progressValue 100 7000 = 5750131667089115 / 140737488355328
   \<and> real_of_int (progress (genState (progressInterval 7000 (startEncoding capturingState))))
       \<noteq> progressValue 100 7000
   \<and> real_of_int (progress (genState (progressInterval 7000 (startEncoding capturingState))))
       \<noteq> min (40 + (100 / 7000) * 60) 99"
  by (simp add: progressInterval_def startEncoding_def Let_def progressValue_samples)

text \<open>
  The rounding matters for what is stored: a buffer of 80000 frames at 24000 Hz has
  \<open>durationMs = 3333.3333333333335\<close>, and at \<open>elapsed = 500\<close> the poll computes exactly 49 and
  stores 49, where the same formula over the reals stays below 49.
\<close>

lemma progressInterval_rounding_matters:
  "durationMs_of \<lparr>numberOfChannels = 1, length_frames = 80000, sampleRate = 24000,
       getChannelData = [replicate 80000 (Num 0)]\<rparr> = 7330077518506667 / 2199023255552
   \<and> progressValue 500 (7330077518506667 / 2199023255552) = 49
   \<and> progress (genState (progressInterval (7330077518506667 / 2199023255552)
         ((startEncoding capturingState)\<lparr>elapsed := 400\<rparr>))) = 49
   \<and> \<lfloor>min (40 + (500 / (7330077518506667 / 2199023255552)) * 60) (99::real)\<rfloor> = 48"
proof -
  have d: "durationMs_of \<lparr>numberOfChannels = 1, length_frames = 80000, sampleRate = 24000,
       getChannelData = [replicate 80000 (Num 0)]\<rparr> = 7330077518506667 / 2199023255552"
    by (simp add: durationMs_of_def duration_def dbl_eval)
  have v: "progressValue 500 (7330077518506667 / 2199023255552) = 49"
    by (simp add: progressValue_def dbl_eval)
  have "progress (genState (progressInterval (7330077518506667 / 2199023255552)
         ((startEncoding capturingState)\<lparr>elapsed := 400\<rparr>)))
      = \<lfloor>progressValue 500 (7330077518506667 / 2199023255552)\<rfloor>"
    by (simp add: progressInterval_def startEncoding_def Let_def)
  then have p: "progress (genState (progressInterval (7330077518506667 / 2199023255552)
         ((startEncoding capturingState)\<lparr>elapsed := 400\<rparr>))) = 49"
    by (simp add: v)
  have r: "\<lfloor>min (40 + (500 / (7330077518506667 / 2199023255552)) * 60) (99::real)\<rfloor> = 48"
    by simp
  show ?thesis
    using d v p r by simp
qed

end
